theory Spec2Isabelle
  imports Complex_Main
begin

section \<open>Python string formatting\<close>

text \<open>
  Strings are byte strings (\<open>char list\<close>). \<open>str_int\<close> is Python's \<open>str\<close> on an
  integer, which is also what \<open>%d\<close> and \<open>%s\<close> print for one: the decimal digits,
  most significant first, after a minus sign when the number is negative.
\<close>

definition digit_char :: "nat \<Rightarrow> char" where
  "digit_char d =
     (if d = 0 then CHR ''0'' else if d = 1 then CHR ''1'' else if d = 2 then CHR ''2''
      else if d = 3 then CHR ''3'' else if d = 4 then CHR ''4'' else if d = 5 then CHR ''5''
      else if d = 6 then CHR ''6'' else if d = 7 then CHR ''7'' else if d = 8 then CHR ''8''
      else CHR ''9'')"

fun digits :: "nat \<Rightarrow> string" where
  "digits n = (if n < 10 then [digit_char n] else digits (n div 10) @ [digit_char (n mod 10)])"

declare digits.simps [simp del]

definition str_int :: "int \<Rightarrow> string" where
  "str_int i = (if i < 0 then CHR ''-'' # digits (nat (- i)) else digits (nat i))"

text \<open>\<open>sep.join(xs)\<close> of Python.\<close>

fun join :: "string \<Rightarrow> string list \<Rightarrow> string" where
  "join sep [] = []"
| "join sep [x] = x"
| "join sep (x # y # ys) = x @ sep @ join sep (y # ys)"

section \<open>The tile key\<close>

text \<open>
  The objects the cache is handed: a layer (its \<open>name()\<close> and the two attributes the
  cache reads), a coordinate with integer fields, and the cache object itself.
  Times and durations are seconds, as exact rationals.
\<close>

record layer =
  name :: string
  stale_lock_timeout :: rat
  cache_lifespan :: "rat option"

record coord =
  zoom :: int
  column :: int
  row :: int

text \<open>
  \<open>tile_key(layer, coord, auth, format, rev, key_prefix)\<close> (\<open>rev\<close> is written
  \<open>rev'\<close>). The collection \<open>auth\<close> is
  given as the list of its elements in iteration order; \<open>sorted\<close> orders them by the
  order of their type. The type of the identifiers is left open by the source, which
  prints each with the builtin \<open>str\<close>: that function is the first argument here.
  \<open>if auth\<close> is Python's truth test of a collection: it is not empty.
\<close>

definition tile_key ::
  "('a::linorder \<Rightarrow> string) \<Rightarrow> layer \<Rightarrow> coord \<Rightarrow> 'a list \<Rightarrow> string \<Rightarrow> int \<Rightarrow> string \<Rightarrow> string"
where
  "tile_key str l c auth format rev' key_prefix =
     (let nm = name l;
          tile = str_int (zoom c) @ ''/'' @ str_int (column c) @ ''/'' @ str_int (row c)
      in if auth \<noteq> [] then
           (let ids = join ''/'' (map str (sort auth))
            in key_prefix @ ''/'' @ str_int rev' @ ''/'' @ nm @ ''/'' @ tile @ ''/'' @ ids
                 @ ''.'' @ format)
         else key_prefix @ ''/'' @ str_int rev' @ ''/'' @ nm @ ''/'' @ tile @ ''.'' @ format)"

text \<open>What follows the row in a key: the identifiers, when there are any, and the format.\<close>

definition key_tail :: "('a::linorder \<Rightarrow> string) \<Rightarrow> 'a list \<Rightarrow> string \<Rightarrow> string" where
  "key_tail str auth format =
     (if auth = [] then ''.'' @ format
      else ''/'' @ join ''/'' (map str (sort auth)) @ ''.'' @ format)"

section \<open>The remote store\<close>

text \<open>
  The cache keeps no state of its own: everything lives in the memcache server, which
  the cache reaches through a client object. The world below is what the code can act
  on and observe: the entries of the server, the clock read by \<open>_time()\<close>, the client
  sessions that are open (each the server list it was opened on, the newest first), and
  the record of the store calls made so far, each with the time of the call and its
  reply.

  Two scripts stand for what the code does not control. \<open>faults\<close> says, for each of
  the coming store calls, whether the client raises on it (a call beyond the script
  does not raise). \<open>others\<close> says what the other callers do to the entries of the
  server during each of the coming sleeps (nothing, beyond the script).

  A store call takes no time; a sleep takes exactly the time asked for.
\<close>

record cache =
  servers :: "string list"
  revision :: int
  key_prefix :: string

datatype error = StoreError

datatype call = Add string string rat | Set string string rat | Get string | Delete string

datatype reply = Raises | Stored | NotStored | Fetched "string option" | Deleted

type_synonym items = "string \<rightharpoonup> string \<times> rat option"

record world =
  store :: items
  now :: rat
  sessions :: "string list list"
  faults :: "bool list"
  others :: "(items \<Rightarrow> items) list"
  calls :: "(rat \<times> call \<times> reply) list"

text \<open>
  Modelled from the spec: the client library (python-memcached) is not part of the
  sources, so the store follows the dependency contract of the specification. An entry
  is a value and the time at which it expires, if it ever does; an expired entry is
  absent.
\<close>

definition lookup :: "string \<Rightarrow> world \<Rightarrow> string option" where
  "lookup k w =
     (case store w k of
        None \<Rightarrow> None
      | Some (v, None) \<Rightarrow> Some v
      | Some (v, Some e) \<Rightarrow> if now w < e then Some v else None)"

text \<open>Modelled from the spec: a time to live of 0 means no expiry.\<close>

definition expiry :: "rat \<Rightarrow> world \<Rightarrow> rat option" where
  "expiry ttl w = (if ttl = 0 then None else Some (now w + ttl))"

text \<open>
  Whether the coming store call raises, and the bookkeeping of a call that was made: its
  place in the script is used up and the call is recorded with its reply.
\<close>

definition raises :: "world \<Rightarrow> bool" where
  "raises w = (case faults w of [] \<Rightarrow> False | f # fs \<Rightarrow> f)"

definition answered :: "call \<Rightarrow> reply \<Rightarrow> world \<Rightarrow> world" where
  "answered c r w = w\<lparr>faults := tl (faults w), calls := calls w @ [(now w, c, r)]\<rparr>"

text \<open>
  Modelled from the spec: \<open>atomic_add(key, value, ttl)\<close> creates the entry only if it
  is absent, and says whether it did.
\<close>

definition mem_add :: "string \<Rightarrow> string \<Rightarrow> rat \<Rightarrow> world \<Rightarrow> (error + bool) \<times> world" where
  "mem_add k v ttl w =
     (if raises w then (Inl StoreError, answered (Add k v ttl) Raises w)
      else if lookup k w = None
        then (Inr True,
              answered (Add k v ttl) Stored (w\<lparr>store := (store w)(k \<mapsto> (v, expiry ttl w))\<rparr>))
        else (Inr False, answered (Add k v ttl) NotStored w))"

text \<open>Modelled from the spec: \<open>set(key, value, ttl)\<close> overwrites unconditionally.\<close>

definition mem_set :: "string \<Rightarrow> string \<Rightarrow> rat \<Rightarrow> world \<Rightarrow> (error + unit) \<times> world" where
  "mem_set k v ttl w =
     (if raises w then (Inl StoreError, answered (Set k v ttl) Raises w)
      else (Inr (),
            answered (Set k v ttl) Stored (w\<lparr>store := (store w)(k \<mapsto> (v, expiry ttl w))\<rparr>)))"

text \<open>
  Modelled from the spec: \<open>get(key)\<close> gives the value, or the absence marker
  (Python's \<open>None\<close>) when there is no entry.
\<close>

definition mem_get :: "string \<Rightarrow> world \<Rightarrow> (error + string option) \<times> world" where
  "mem_get k w =
     (if raises w then (Inl StoreError, answered (Get k) Raises w)
      else (Inr (lookup k w), answered (Get k) (Fetched (lookup k w)) w))"

text \<open>Modelled from the spec: \<open>delete(key)\<close> is a no-op on an absent key.\<close>

definition mem_delete :: "string \<Rightarrow> world \<Rightarrow> (error + unit) \<times> world" where
  "mem_delete k w =
     (if raises w then (Inl StoreError, answered (Delete k) Raises w)
      else (Inr (), answered (Delete k) Deleted (w\<lparr>store := (store w)(k := None)\<rparr>)))"

text \<open>\<open>Client(servers)\<close> opens a session, \<open>mem.disconnect_all()\<close> closes it.\<close>

definition Client :: "string list \<Rightarrow> world \<Rightarrow> world" where
  "Client srv w = w\<lparr>sessions := srv # sessions w\<rparr>"

definition disconnect_all :: "world \<Rightarrow> world" where
  "disconnect_all w = w\<lparr>sessions := tl (sessions w)\<rparr>"

text \<open>\<open>_sleep(d)\<close>: the clock advances and the other callers take their turn.\<close>

definition sleep :: "rat \<Rightarrow> world \<Rightarrow> world" where
  "sleep d w =
     (case others w of
        [] \<Rightarrow> w\<lparr>now := now w + d\<rparr>
      | f # fs \<Rightarrow> w\<lparr>store := f (store w), now := now w + d, others := fs\<rparr>)"

section \<open>The cache\<close>

text \<open>
  The \<open>while\<close> loop of \<open>Cache.lock\<close>. It ends in one of three ways: the client
  raised (\<open>Inl\<close>), the \<open>return\<close> inside the loop was taken (\<open>Inr True\<close>), or the
  condition \<open>_time() < due\<close> failed (\<open>Inr False\<close>).
\<close>

function lock_poll :: "string \<Rightarrow> rat \<Rightarrow> rat \<Rightarrow> world \<Rightarrow> (error + bool) \<times> world" where
  "lock_poll k ttl due w =
     (if now w < due then
        (case mem_add k ''locked.'' ttl w of
           (Inl e, w') \<Rightarrow> (Inl e, w')
         | (Inr True, w') \<Rightarrow> (Inr True, w')
         | (Inr False, w') \<Rightarrow> lock_poll k ttl due (sleep (1 / 5) w'))
      else (Inr False, w))"
  by pat_completeness auto
termination
proof (relation "measure (\<lambda>(k, ttl, due, w). nat \<lceil>(due - now w) * 5\<rceil>)")
  show "wf (measure (\<lambda>(k, ttl, due, w). nat \<lceil>(due - now w) * 5\<rceil>))" by simp
next
  fix k :: string and ttl due :: rat and w y :: world and x :: "error + bool" and b :: bool
  assume lt: "now w < due" and x: "(x, y) = mem_add k ''locked.'' ttl w"
  from x have n: "now y = now w"
    by (auto simp: mem_add_def answered_def split: if_splits)
  have e: "(due - (now w + 1 / 5)) * 5 = (due - now w) * 5 - 1"
    by (simp add: algebra_simps)
  have c: "\<lceil>(due - (now w + 1 / 5)) * 5\<rceil> = \<lceil>(due - now w) * 5\<rceil> - 1"
    unfolding e by (rule ceiling_diff_one)
  have "0 < (due - now w) * 5" using lt by simp
  then have "0 < \<lceil>(due - now w) * 5\<rceil>" by simp
  with c n show "((k, ttl, due, sleep (1 / 5) y), k, ttl, due, w)
      \<in> measure (\<lambda>(k, ttl, due, w). nat \<lceil>(due - now w) * 5\<rceil>)"
    by (simp add: sleep_def split: list.splits)
qed

declare lock_poll.simps [simp del]

text \<open>
  \<open>Cache.lock\<close>: the body of the \<open>try\<close> is the loop and, when the loop ends on its
  condition, the unconditional \<open>mem.set\<close>; the \<open>finally\<close> clause runs on every way
  out of it.
\<close>

definition lock ::
  "('a::linorder \<Rightarrow> string) \<Rightarrow> cache \<Rightarrow> layer \<Rightarrow> coord \<Rightarrow> 'a list \<Rightarrow> string \<Rightarrow> world
     \<Rightarrow> (error + unit) \<times> world"
where
  "lock str self l c auth format w =
     (let mem = Client (servers self) w;
          key = tile_key str l c auth format (revision self) (key_prefix self);
          due = now mem + stale_lock_timeout l;
          (r, w') =
            (case lock_poll (key @ ''-lock'') (stale_lock_timeout l) due mem of
               (Inl e, w1) \<Rightarrow> (Inl e, w1)
             | (Inr True, w1) \<Rightarrow> (Inr (), w1)
             | (Inr False, w1) \<Rightarrow>
                 mem_set (key @ ''-lock'') ''locked.'' (stale_lock_timeout l) w1)
      in (r, disconnect_all w'))"

text \<open>
  The other four operations have no \<open>try\<close>: when the store call raises, the
  statements after it are not run.
\<close>

definition unlock ::
  "('a::linorder \<Rightarrow> string) \<Rightarrow> cache \<Rightarrow> layer \<Rightarrow> coord \<Rightarrow> 'a list \<Rightarrow> string \<Rightarrow> world
     \<Rightarrow> (error + unit) \<times> world"
where
  "unlock str self l c auth format w =
     (let mem = Client (servers self) w;
          key = tile_key str l c auth format (revision self) (key_prefix self)
      in case mem_delete (key @ ''-lock'') mem of
           (Inl e, w') \<Rightarrow> (Inl e, w')
         | (Inr u, w') \<Rightarrow> (Inr (), disconnect_all w'))"

definition remove ::
  "('a::linorder \<Rightarrow> string) \<Rightarrow> cache \<Rightarrow> layer \<Rightarrow> coord \<Rightarrow> 'a list \<Rightarrow> string \<Rightarrow> world
     \<Rightarrow> (error + unit) \<times> world"
where
  "remove str self l c auth format w =
     (let mem = Client (servers self) w;
          key = tile_key str l c auth format (revision self) (key_prefix self)
      in case mem_delete key mem of
           (Inl e, w') \<Rightarrow> (Inl e, w')
         | (Inr u, w') \<Rightarrow> (Inr (), disconnect_all w'))"

definition read ::
  "('a::linorder \<Rightarrow> string) \<Rightarrow> cache \<Rightarrow> layer \<Rightarrow> coord \<Rightarrow> 'a list \<Rightarrow> string \<Rightarrow> world
     \<Rightarrow> (error + string option) \<times> world"
where
  "read str self l c auth format w =
     (let mem = Client (servers self) w;
          key = tile_key str l c auth format (revision self) (key_prefix self)
      in case mem_get key mem of
           (Inl e, w') \<Rightarrow> (Inl e, w')
         | (Inr val, w') \<Rightarrow> (Inr val, disconnect_all w'))"

text \<open>\<open>layer.cache_lifespan or 0\<close>: \<open>None\<close> and \<open>0\<close> are false in Python.\<close>

definition or_0 :: "rat option \<Rightarrow> rat" where
  "or_0 x = (case x of None \<Rightarrow> 0 | Some n \<Rightarrow> if n = 0 then 0 else n)"

definition save ::
  "('a::linorder \<Rightarrow> string) \<Rightarrow> cache \<Rightarrow> string \<Rightarrow> layer \<Rightarrow> coord \<Rightarrow> 'a list \<Rightarrow> string \<Rightarrow> world
     \<Rightarrow> (error + unit) \<times> world"
where
  "save str self body l c auth format w =
     (let mem = Client (servers self) w;
          key = tile_key str l c auth format (revision self) (key_prefix self)
      in case mem_set key body (or_0 (cache_lifespan l)) mem of
           (Inl e, w') \<Rightarrow> (Inl e, w')
         | (Inr u, w') \<Rightarrow> (Inr (), disconnect_all w'))"

section \<open>Observing a run\<close>

text \<open>
  The store calls made between two worlds, and what kind of record each is: an
  unconditional set, an atomic create, an atomic create that succeeded.
\<close>

definition new_calls :: "world \<Rightarrow> world \<Rightarrow> (rat \<times> call \<times> reply) list" where
  "new_calls w w' = drop (length (calls w)) (calls w')"

fun is_set :: "rat \<times> call \<times> reply \<Rightarrow> bool" where
  "is_set (t, Set k v ttl, r) = True"
| "is_set (t, c, r) = False"

fun is_add :: "rat \<times> call \<times> reply \<Rightarrow> bool" where
  "is_add (t, Add k v ttl, r) = True"
| "is_add (t, c, r) = False"

fun created :: "rat \<times> call \<times> reply \<Rightarrow> bool" where
  "created (t, Add k v ttl, Stored) = True"
| "created (t, c, r) = False"

text \<open>
  Worlds and arguments to run the operations on: an idle server; one where the lock of a
  tile is held for the next 15 seconds; the same one, with the holder unlocking during
  the first sleep of whoever waits; one whose next store call raises; one that holds the
  tile.
\<close>

definition world0 :: world where
  "world0 = \<lparr>store = Map.empty, now = 0, sessions = [], faults = [], others = [], calls = []\<rparr>"

definition held :: world where
  "held = world0\<lparr>store := [''p/0/a/1/2/3.png-lock'' \<mapsto> (''locked.'', Some 15)]\<rparr>"

definition released :: world where
  "released = held\<lparr>others := [\<lambda>m. m(''p/0/a/1/2/3.png-lock'' := None)]\<rparr>"

definition failing :: world where
  "failing = world0\<lparr>faults := [True]\<rparr>"

definition stored :: world where
  "stored = world0\<lparr>store := [''p/0/a/1/2/3.png'' \<mapsto> (''body'', None)]\<rparr>"

definition cache0 :: cache where
  "cache0 = \<lparr>servers = [''127.0.0.1:11211''], revision = 0, key_prefix = ''p''\<rparr>"

definition layer0 :: "rat \<Rightarrow> layer" where
  "layer0 t = \<lparr>name = ''a'', stale_lock_timeout = t, cache_lifespan = Some 60\<rparr>"

definition coord0 :: coord where
  "coord0 = \<lparr>zoom = 1, column = 2, row = 3\<rparr>"

section \<open>Decimal printing is injective\<close>

lemma lt10_cases: "(d::nat) < 10 \<Longrightarrow> d \<in> {0, 1, 2, 3, 4, 5, 6, 7, 8, 9}"
  by auto

lemma digit_char_val: "d < 10 \<Longrightarrow> of_char (digit_char d) = (48 + d :: nat)"
  by (drule lt10_cases) (auto simp: digit_char_def)

lemma digit_char_inj: "a < 10 \<Longrightarrow> b < 10 \<Longrightarrow> digit_char a = digit_char b \<Longrightarrow> a = b"
proof -
  assume a: "a < 10" and b: "b < 10" and e: "digit_char a = digit_char b"
  have "(48 + a :: nat) = of_char (digit_char a)" using a by (simp add: digit_char_val)
  also have "\<dots> = of_char (digit_char b)" using e by simp
  also have "\<dots> = 48 + b" using b by (simp add: digit_char_val)
  finally show "a = b" by simp
qed

lemma digit_char_set: "digit_char d \<in> set ''0123456789''"
  unfolding digit_char_def by simp

lemma digits_set: "set (digits n) \<subseteq> set ''0123456789''"
proof (induction n rule: digits.induct)
  case (1 n)
  show ?case
  proof (cases "n < 10")
    case True
    then show ?thesis using digit_char_set [of n] by (simp add: digits.simps [of n])
  next
    case False
    then show ?thesis using 1 digit_char_set [of "n mod 10"]
      by (simp add: digits.simps [of n])
  qed
qed

lemma digits_nonempty: "digits n \<noteq> []"
  by (simp add: digits.simps [of n])

lemma digits_length_one: "length (digits n) = 1 \<longleftrightarrow> n < 10"
  using digits_nonempty [of "n div 10"] by (simp add: digits.simps [of n])

lemma digits_inj: "digits n = digits m \<Longrightarrow> n = m"
proof (induction n arbitrary: m rule: digits.induct)
  case (1 n)
  show ?case
  proof (cases "n < 10")
    case True
    then have "length (digits m) = 1" using 1(2) [symmetric] digits_length_one [of n] by simp
    then have m: "m < 10" using digits_length_one [of m] by simp
    from 1(2) True m have "digit_char n = digit_char m"
      by (simp add: digits.simps [of n] digits.simps [of m])
    then show ?thesis using True m digit_char_inj by blast
  next
    case False
    then have "length (digits m) \<noteq> 1" using 1(2) [symmetric] digits_length_one [of n] by simp
    then have m: "\<not> m < 10" using digits_length_one [of m] by simp
    from 1(2) False m have e: "digits (n div 10) = digits (m div 10)"
      and d: "digit_char (n mod 10) = digit_char (m mod 10)"
      by (simp_all add: digits.simps [of n] digits.simps [of m])
    from e have "n div 10 = m div 10" using 1(1) False by blast
    moreover from d have "n mod 10 = m mod 10" by (intro digit_char_inj) simp_all
    ultimately have "n div 10 * 10 + n mod 10 = m div 10 * 10 + m mod 10" by simp
    then show ?thesis by (simp only: div_mult_mod_eq)
  qed
qed

lemma str_int_set: "set (str_int i) \<subseteq> set ''-0123456789''"
proof (cases "i < 0")
  case True
  have "set (digits (nat (- i))) \<subseteq> set ''-0123456789''"
    using digits_set [of "nat (- i)"] by (rule subset_trans) simp
  with True show ?thesis by (simp add: str_int_def)
next
  case False
  have "set (digits (nat i)) \<subseteq> set ''-0123456789''"
    using digits_set [of "nat i"] by (rule subset_trans) simp
  with False show ?thesis by (simp add: str_int_def)
qed

lemma str_int_inj: "str_int i = str_int j \<Longrightarrow> i = j"
proof -
  assume e: "str_int i = str_int j"
  have no_minus: "\<And>n. hd (digits n) \<noteq> CHR ''-''"
  proof -
    fix n
    have "hd (digits n) \<in> set (digits n)" using digits_nonempty by simp
    then have "hd (digits n) \<in> set ''0123456789''" using digits_set by blast
    then show "hd (digits n) \<noteq> CHR ''-''" by force
  qed
  show ?thesis
  proof (cases "i < 0")
    case True
    show ?thesis
    proof (cases "j < 0")
      case j: True
      with True e have "digits (nat (- i)) = digits (nat (- j))" by (simp add: str_int_def)
      then have "nat (- i) = nat (- j)" by (rule digits_inj)
      with True j show ?thesis by simp
    next
      case j: False
      with True e have "CHR ''-'' # digits (nat (- i)) = digits (nat j)" by (simp add: str_int_def)
      then have "hd (digits (nat j)) = CHR ''-''" by (metis list.sel(1))
      with no_minus show ?thesis by blast
    qed
  next
    case False
    show ?thesis
    proof (cases "j < 0")
      case j: True
      with False e have "CHR ''-'' # digits (nat (- j)) = digits (nat i)" by (simp add: str_int_def)
      then have "hd (digits (nat i)) = CHR ''-''" by (metis list.sel(1))
      with no_minus show ?thesis by blast
    next
      case j: False
      with False e have "digits (nat i) = digits (nat j)" by (simp add: str_int_def)
      then have "nat i = nat j" by (rule digits_inj)
      with False j show ?thesis by simp
    qed
  qed
qed

lemma split_at_sep:
  assumes "a @ x # r = b @ y # s"
    and "x \<notin> set b" and "y \<notin> set a" and "x \<notin> set a" and "y \<notin> set b"
  shows "a = b \<and> x = y \<and> r = s"
  using assms
proof (induction a arbitrary: b)
  case Nil
  then show ?case by (cases b) auto
next
  case (Cons c a)
  then show ?case by (cases b) auto
qed

lemma join_set: "set (join sep xs) \<subseteq> set sep \<union> \<Union> (set ` set xs)"
  by (induction sep xs rule: join.induct) auto

lemma join_inj:
  assumes "join [s] xs = join [s] ys" and "xs \<noteq> []" and "ys \<noteq> []"
    and "\<forall>x \<in> set xs. s \<notin> set x" and "\<forall>y \<in> set ys. s \<notin> set y"
  shows "xs = ys"
  using assms
proof (induction xs arbitrary: ys)
  case Nil
  then show ?case by simp
next
  case (Cons x xs)
  then obtain y ys' where ys: "ys = y # ys'" by (cases ys) auto
  show ?case
  proof (cases xs)
    case Nil
    show ?thesis
    proof (cases ys')
      case Nil
      with Cons.prems ys \<open>xs = []\<close> show ?thesis by simp
    next
      case (Cons z zs)
      with Cons.prems(1) ys \<open>xs = []\<close> have "x = y @ s # join [s] (z # zs)" by simp
      then have "s \<in> set x" by simp
      with Cons.prems(4) show ?thesis by simp
    qed
  next
    case c: (Cons x' xs')
    show ?thesis
    proof (cases ys')
      case Nil
      with Cons.prems(1) ys c have "y = x @ s # join [s] (x' # xs')" by simp
      then have "s \<in> set y" by simp
      with Cons.prems(5) ys show ?thesis by simp
    next
      case (Cons z zs)
      with Cons.prems(1) ys c
      have e: "x @ s # join [s] xs = y @ s # join [s] ys'" by simp
      have "s \<notin> set x" "s \<notin> set y" using Cons.prems(4,5) ys by simp_all
      with e have "x = y \<and> s = s \<and> join [s] xs = join [s] ys'"
        by (intro split_at_sep) simp_all
      moreover then have "xs = ys'"
        using Cons.IH [of ys'] c Cons Cons.prems(4,5) ys by simp
      ultimately show ?thesis using ys by simp
    qed
  qed
qed

lemma str_int_no_slash: "CHR ''/'' \<notin> set (str_int i)"
proof -
  have "CHR ''/'' \<notin> set ''-0123456789''" by simp
  with str_int_set [of i] show ?thesis by blast
qed

lemma str_int_no_dot: "CHR ''.'' \<notin> set (str_int i)"
proof -
  have "CHR ''.'' \<notin> set ''-0123456789''" by simp
  with str_int_set [of i] show ?thesis by blast
qed

lemma tile_key_parts:
  "tile_key str l c auth format rev' pre =
     (pre @ ''/'' @ str_int rev' @ ''/'') @ name l @ CHR ''/'' # str_int (zoom c)
       @ CHR ''/'' # str_int (column c) @ CHR ''/'' # str_int (row c) @ key_tail str auth format"
  by (simp add: tile_key_def key_tail_def Let_def)

lemma key_tail_inj:
  assumes e: "r1 @ key_tail str a1 f1 = r2 @ key_tail str a2 f2"
    and r1: "CHR ''/'' \<notin> set r1" "CHR ''.'' \<notin> set r1"
    and r2: "CHR ''/'' \<notin> set r2" "CHR ''.'' \<notin> set r2"
    and inj: "inj_on str (set a1 \<union> set a2)"
    and ok: "\<forall>x \<in> set a1 \<union> set a2. CHR ''/'' \<notin> set (str x) \<and> CHR ''.'' \<notin> set (str x)"
  shows "r1 = r2 \<and> set a1 = set a2 \<and> f1 = f2"
proof -
  let ?i1 = "map str (sort a1)" and ?i2 = "map str (sort a2)"
  have k1: "key_tail str a1 f1 =
      (if a1 = [] then CHR ''.'' # f1 else CHR ''/'' # join ''/'' ?i1 @ CHR ''.'' # f1)"
    by (simp add: key_tail_def)
  have k2: "key_tail str a2 f2 =
      (if a2 = [] then CHR ''.'' # f2 else CHR ''/'' # join ''/'' ?i2 @ CHR ''.'' # f2)"
    by (simp add: key_tail_def)
  show ?thesis
  proof (cases "a1 = []")
    case True
    show ?thesis
    proof (cases "a2 = []")
      case a2: True
      from e have "r1 @ CHR ''.'' # f1 = r2 @ CHR ''.'' # f2"
        unfolding k1 k2 using True a2 by simp
      from split_at_sep [OF this] r1 r2 True a2 show ?thesis by simp
    next
      case a2: False
      from e have "r1 @ CHR ''.'' # f1 = r2 @ CHR ''/'' # join ''/'' ?i2 @ CHR ''.'' # f2"
        unfolding k1 k2 using True a2 by simp
      from split_at_sep [OF this] r1 r2 show ?thesis by simp
    qed
  next
    case False
    show ?thesis
    proof (cases "a2 = []")
      case a2: True
      from e have "r1 @ CHR ''/'' # join ''/'' ?i1 @ CHR ''.'' # f1 = r2 @ CHR ''.'' # f2"
        unfolding k1 k2 using False a2 by simp
      from split_at_sep [OF this] r1 r2 show ?thesis by simp
    next
      case a2: False
      from e have "r1 @ CHR ''/'' # join ''/'' ?i1 @ CHR ''.'' # f1
          = r2 @ CHR ''/'' # join ''/'' ?i2 @ CHR ''.'' # f2"
        unfolding k1 k2 using False a2 by simp
      from split_at_sep [OF this] r1 r2
      have r: "r1 = r2"
        and j: "join ''/'' ?i1 @ CHR ''.'' # f1 = join ''/'' ?i2 @ CHR ''.'' # f2"
        by simp_all
      have d1: "CHR ''.'' \<notin> set (join ''/'' ?i1)"
        using join_set [of "''/''" ?i1] ok by auto
      have d2: "CHR ''.'' \<notin> set (join ''/'' ?i2)"
        using join_set [of "''/''" ?i2] ok by auto
      from split_at_sep [OF j] d1 d2
      have je: "join ''/'' ?i1 = join ''/'' ?i2" and f: "f1 = f2"
        by simp_all
      have "?i1 = ?i2"
      proof (rule join_inj [of "CHR ''/''"])
        show "join ''/'' ?i1 = join ''/'' ?i2" by (rule je)
        show "?i1 \<noteq> []" using False by (metis Nil_is_map_conv set_empty set_sort)
        show "?i2 \<noteq> []" using a2 by (metis Nil_is_map_conv set_empty set_sort)
        show "\<forall>x \<in> set ?i1. CHR ''/'' \<notin> set x" using ok by auto
        show "\<forall>y \<in> set ?i2. CHR ''/'' \<notin> set y" using ok by auto
      qed
      moreover have "inj_on str (set (sort a1) \<union> set (sort a2))" using inj by simp
      ultimately have "sort a1 = sort a2" by (simp add: inj_on_map_eq_map)
      then have "set (sort a1) = set (sort a2)" by simp
      then have "set a1 = set a2" by simp
      with r f show ?thesis by simp
    qed
  qed
qed

lemma tile_key_inj:
  assumes e: "tile_key str l1 c1 a1 f1 rev' pre = tile_key str l2 c2 a2 f2 rev' pre"
    and n: "CHR ''/'' \<notin> set (name l1)" "CHR ''/'' \<notin> set (name l2)"
    and inj: "inj_on str (set a1 \<union> set a2)"
    and ok: "\<forall>x \<in> set a1 \<union> set a2. CHR ''/'' \<notin> set (str x) \<and> CHR ''.'' \<notin> set (str x)"
  shows "name l1 = name l2 \<and> zoom c1 = zoom c2 \<and> column c1 = column c2 \<and> row c1 = row c2
    \<and> set a1 = set a2 \<and> f1 = f2"
proof -
  let ?t1 = "key_tail str a1 f1" and ?t2 = "key_tail str a2 f2"
  from e have e1: "name l1 @ CHR ''/'' # str_int (zoom c1) @ CHR ''/'' # str_int (column c1)
       @ CHR ''/'' # str_int (row c1) @ ?t1
     = name l2 @ CHR ''/'' # str_int (zoom c2) @ CHR ''/'' # str_int (column c2)
       @ CHR ''/'' # str_int (row c2) @ ?t2"
    unfolding tile_key_parts by (simp only: same_append_eq)
  from split_at_sep [OF e1] n
  have nm: "name l1 = name l2"
    and e2: "str_int (zoom c1) @ CHR ''/'' # str_int (column c1) @ CHR ''/'' # str_int (row c1) @ ?t1
      = str_int (zoom c2) @ CHR ''/'' # str_int (column c2) @ CHR ''/'' # str_int (row c2) @ ?t2"
    by simp_all
  from split_at_sep [OF e2] str_int_no_slash
  have z: "str_int (zoom c1) = str_int (zoom c2)"
    and e3: "str_int (column c1) @ CHR ''/'' # str_int (row c1) @ ?t1
      = str_int (column c2) @ CHR ''/'' # str_int (row c2) @ ?t2"
    by simp_all
  from split_at_sep [OF e3] str_int_no_slash
  have c: "str_int (column c1) = str_int (column c2)"
    and e4: "str_int (row c1) @ ?t1 = str_int (row c2) @ ?t2"
    by simp_all
  from key_tail_inj [OF e4 str_int_no_slash str_int_no_dot str_int_no_slash str_int_no_dot inj ok]
  have r: "str_int (row c1) = str_int (row c2)" and rest: "set a1 = set a2" "f1 = f2"
    by simp_all
  from nm z c r rest show ?thesis by (simp add: str_int_inj)
qed

lemma str_int_inj_on: "inj_on str_int A"
  by (rule inj_onI) (rule str_int_inj)

section \<open>Properties of the tile key\<close>

text \<open>
  C1. The key is the prefix, the revision, the layer name, zoom, column and row,
  separated by slashes, then a slash and the sorted identifiers joined by slashes when
  there are identifiers and nothing when there are none, then a dot and the format.
\<close>

theorem tile_key_format:
  "tile_key str l c auth format rev' pre =
     pre @ ''/'' @ str_int rev' @ ''/'' @ name l @ ''/'' @ str_int (zoom c) @ ''/''
       @ str_int (column c) @ ''/'' @ str_int (row c)
       @ (if auth = [] then [] else ''/'' @ join ''/'' (map str (sort auth)))
       @ ''.'' @ format"
  by (simp add: tile_key_def Let_def)

theorem tile_key_format_witness:
  "tile_key str_int \<lparr>name = ''osm'', stale_lock_timeout = 15, cache_lifespan = None\<rparr>
     \<lparr>zoom = 12, column = 656, row = 1582\<rparr> [7, 3 :: int] ''png'' 1 ''ts''
   = ''ts/1/osm/12/656/1582/3/7.png''
   \<and> tile_key str_int \<lparr>name = ''osm'', stale_lock_timeout = 15, cache_lifespan = None\<rparr>
     \<lparr>zoom = 12, column = 656, row = 1582\<rparr> ([] :: int list) ''png'' 1 ''ts''
   = ''ts/1/osm/12/656/1582.png''"
  using tile_key_format [of str_int
      "\<lparr>name = ''osm'', stale_lock_timeout = 15, cache_lifespan = None\<rparr>"
      "\<lparr>zoom = 12, column = 656, row = 1582\<rparr>" "[7, 3]" "''png''" 1 "''ts''"]
    tile_key_format [of str_int
      "\<lparr>name = ''osm'', stale_lock_timeout = 15, cache_lifespan = None\<rparr>"
      "\<lparr>zoom = 12, column = 656, row = 1582\<rparr>" "[]" "''png''" 1 "''ts''"]
  by (simp add: str_int_def digits.simps digit_char_def)

text \<open>
  C2. Two tiles with the same layer name, zoom, column, row and format, and the same set
  of identifiers enumerated in any two orders, have the same key.
\<close>

theorem tile_key_order_independent:
  assumes "name l1 = name l2"
    and "zoom c1 = zoom c2" and "column c1 = column c2" and "row c1 = row c2"
    and "f1 = f2"
    and "distinct a1" and "distinct a2" and "set a1 = set a2"
  shows "tile_key str l1 c1 a1 f1 rev' pre = tile_key str l2 c2 a2 f2 rev' pre"
proof -
  have "sort a1 = sort a2"
    by (rule sorted_distinct_set_unique) (simp_all add: assms)
  moreover have "a1 = [] \<longleftrightarrow> a2 = []"
    using assms(8) by (metis set_empty)
  ultimately show ?thesis using assms(1-5) by (simp add: tile_key_def Let_def)
qed

theorem tile_key_order_independent_witness:
  "tile_key str_int \<lparr>name = ''osm'', stale_lock_timeout = 15, cache_lifespan = None\<rparr>
     \<lparr>zoom = 12, column = 656, row = 1582\<rparr> [7, 3, 5 :: int] ''png'' 1 ''ts''
   = tile_key str_int \<lparr>name = ''osm'', stale_lock_timeout = 2, cache_lifespan = Some 60\<rparr>
     \<lparr>zoom = 12, column = 656, row = 1582\<rparr> [5, 7, 3] ''png'' 1 ''ts''"
  by (rule tile_key_order_independent) auto

text \<open>
  C3. Nothing in a key is escaped, so a slash in a layer name moves the boundaries
  between the fields: the layer \<open>a\<close> at 1/2/3 with the identifier 4 and the layer
  \<open>a/1\<close> at 2/3/4 with no identifier have one key.
\<close>

theorem tile_key_collision:
  "name \<lparr>name = ''a'', stale_lock_timeout = 15, cache_lifespan = None\<rparr>
     \<noteq> name \<lparr>name = ''a/1'', stale_lock_timeout = 15, cache_lifespan = None\<rparr>
   \<and> tile_key str_int \<lparr>name = ''a'', stale_lock_timeout = 15, cache_lifespan = None\<rparr>
       \<lparr>zoom = 1, column = 2, row = 3\<rparr> [4 :: int] ''png'' 0 ''p''
     = tile_key str_int \<lparr>name = ''a/1'', stale_lock_timeout = 15, cache_lifespan = None\<rparr>
       \<lparr>zoom = 2, column = 3, row = 4\<rparr> [] ''png'' 0 ''p''"
  by (simp add: tile_key_def Let_def str_int_def digits.simps digit_char_def)

text \<open>
  C3, amended. For a fixed prefix and revision, two tiles that differ in layer name,
  zoom, column, row, format or in the set of their identifiers have different keys,
  provided no layer name contains a slash and the identifiers print to different strings
  that contain neither a slash nor a dot (as integers do).
\<close>

theorem tile_key_distinct:
  assumes "CHR ''/'' \<notin> set (name l1)" and "CHR ''/'' \<notin> set (name l2)"
    and "inj_on str (set a1 \<union> set a2)"
    and "\<forall>x \<in> set a1 \<union> set a2. CHR ''/'' \<notin> set (str x) \<and> CHR ''.'' \<notin> set (str x)"
    and "name l1 \<noteq> name l2 \<or> zoom c1 \<noteq> zoom c2 \<or> column c1 \<noteq> column c2 \<or> row c1 \<noteq> row c2
      \<or> f1 \<noteq> f2 \<or> set a1 \<noteq> set a2"
  shows "tile_key str l1 c1 a1 f1 rev' pre \<noteq> tile_key str l2 c2 a2 f2 rev' pre"
proof
  assume "tile_key str l1 c1 a1 f1 rev' pre = tile_key str l2 c2 a2 f2 rev' pre"
  from tile_key_inj [OF this assms(1-4)] assms(5) show False by blast
qed

theorem tile_key_distinct_witness:
  "tile_key str_int \<lparr>name = ''osm'', stale_lock_timeout = 15, cache_lifespan = None\<rparr>
     \<lparr>zoom = 12, column = 656, row = 1582\<rparr> [7, 3 :: int] ''png'' 1 ''ts''
   \<noteq> tile_key str_int \<lparr>name = ''osm'', stale_lock_timeout = 15, cache_lifespan = None\<rparr>
     \<lparr>zoom = 12, column = 656, row = 1582\<rparr> [7] ''png'' 1 ''ts''"
proof (rule tile_key_distinct)
  show "inj_on str_int (set [7, 3] \<union> set [7])" by (rule str_int_inj_on)
  show "\<forall>x \<in> set [7, 3] \<union> set [7]. CHR ''/'' \<notin> set (str_int x) \<and> CHR ''.'' \<notin> set (str_int x)"
    by (simp add: str_int_no_slash str_int_no_dot)
qed simp_all

section \<open>The store calls and the session\<close>

lemma answered_fields [simp]:
  "store (answered c r w) = store w"
  "now (answered c r w) = now w"
  "sessions (answered c r w) = sessions w"
  "faults (answered c r w) = tl (faults w)"
  "others (answered c r w) = others w"
  "calls (answered c r w) = calls w @ [(now w, c, r)]"
  by (simp_all add: answered_def)

lemma Client_fields [simp]:
  "store (Client srv w) = store w"
  "now (Client srv w) = now w"
  "sessions (Client srv w) = srv # sessions w"
  "faults (Client srv w) = faults w"
  "others (Client srv w) = others w"
  "calls (Client srv w) = calls w"
  by (simp_all add: Client_def)

lemma disconnect_all_fields [simp]:
  "store (disconnect_all w) = store w"
  "now (disconnect_all w) = now w"
  "sessions (disconnect_all w) = tl (sessions w)"
  "faults (disconnect_all w) = faults w"
  "others (disconnect_all w) = others w"
  "calls (disconnect_all w) = calls w"
  by (simp_all add: disconnect_all_def)

lemma sleep_fields [simp]:
  "now (sleep d w) = now w + d"
  "sessions (sleep d w) = sessions w"
  "faults (sleep d w) = faults w"
  "calls (sleep d w) = calls w"
  by (simp_all add: sleep_def split: list.splits)

lemma mem_set_fields [simp]:
  "now (snd (mem_set k v ttl w)) = now w"
  "sessions (snd (mem_set k v ttl w)) = sessions w"
  "calls (snd (mem_set k v ttl w))
     = calls w @ [(now w, Set k v ttl, if raises w then Raises else Stored)]"
  "fst (mem_set k v ttl w) = (if raises w then Inl StoreError else Inr ())"
  by (simp_all add: mem_set_def)

lemma raises_Client [simp]: "raises (Client srv w) = raises w"
  by (simp add: raises_def)

lemma lookup_Client [simp]: "lookup k (Client srv w) = lookup k w"
  by (simp add: lookup_def split: option.splits)

lemma lookup_disconnect_all [simp]: "lookup k (disconnect_all w) = lookup k w"
  by (simp add: lookup_def split: option.splits)

lemma key0: "tile_key str_int (layer0 t) coord0 [] ''png'' (revision cache0) (key_prefix cache0)
    = ''p/0/a/1/2/3.png''"
  by (simp add: tile_key_def layer0_def coord0_def cache0_def Let_def str_int_def digits.simps
      digit_char_def)

section \<open>Unlock, save, read, remove\<close>

text \<open>
  C7. \<open>unlock\<close> deletes the lock entry whatever the store holds: when the store call
  does not raise, it returns normally and the lock key is absent afterwards, whether or
  not there was a lock entry; a second \<open>unlock\<close> does the same.
\<close>

theorem unlock_idempotent:
  assumes "\<not> raises w"
  shows "fst (unlock str self l c auth format w) = Inr ()
    \<and> store (snd (unlock str self l c auth format w))
        (tile_key str l c auth format (revision self) (key_prefix self) @ ''-lock'') = None
    \<and> sessions (snd (unlock str self l c auth format w)) = sessions w
    \<and> (\<not> raises (snd (unlock str self l c auth format w)) \<longrightarrow>
         fst (unlock str self l c auth format (snd (unlock str self l c auth format w))) = Inr ()
         \<and> store (snd (unlock str self l c auth format (snd (unlock str self l c auth format w))))
             (tile_key str l c auth format (revision self) (key_prefix self) @ ''-lock'') = None)"
  using assms by (simp add: unlock_def mem_delete_def Let_def raises_def)

theorem unlock_idempotent_witness:
  "fst (unlock str_int cache0 (layer0 15) coord0 [] ''png'' world0) = Inr ()
   \<and> store (snd (unlock str_int cache0 (layer0 15) coord0 [] ''png'' world0))
       ''p/0/a/1/2/3.png-lock'' = None
   \<and> fst (unlock str_int cache0 (layer0 15) coord0 [] ''png''
       (snd (unlock str_int cache0 (layer0 15) coord0 [] ''png'' world0))) = Inr ()"
proof -
  have 1: "\<not> raises world0" by (simp add: raises_def world0_def)
  have 2: "\<not> raises (snd (unlock str_int cache0 (layer0 15) coord0 [] ''png'' world0))"
    by (simp add: unlock_def mem_delete_def Let_def raises_def world0_def)
  from unlock_idempotent [OF 1, of str_int cache0 "layer0 15" coord0 "[]" "''png''"] 2
  show ?thesis by (simp add: key0)
qed

text \<open>
  C8. After \<open>save\<close> of a body, a \<open>read\<close> of the same tile at any time \<open>t\<close> at which
  the entry has not expired gives that body back, when neither store call raises and
  nothing else touched the store in between.
\<close>

theorem save_then_read:
  assumes "\<not> raises w"
    and "\<not> raises (snd (save str self body l c auth format w))"
    and "or_0 (cache_lifespan l) = 0 \<or> t < now w + or_0 (cache_lifespan l)"
  shows "fst (save str self body l c auth format w) = Inr ()
    \<and> fst (read str self l c auth format ((snd (save str self body l c auth format w))\<lparr>now := t\<rparr>))
        = Inr (Some body)"
  using assms
  by (auto simp: save_def read_def mem_set_def mem_get_def Let_def raises_def lookup_def expiry_def)

theorem save_then_read_witness:
  "fst (read str_int cache0 (layer0 15) coord0 [] ''png''
     ((snd (save str_int cache0 ''body'' (layer0 15) coord0 [] ''png'' world0))\<lparr>now := 30\<rparr>))
   = Inr (Some ''body'')"
proof -
  have 1: "\<not> raises world0" by (simp add: raises_def world0_def)
  have 2: "\<not> raises (snd (save str_int cache0 ''body'' (layer0 15) coord0 [] ''png'' world0))"
    by (simp add: save_def mem_set_def Let_def raises_def world0_def)
  have 3: "or_0 (cache_lifespan (layer0 15)) = 0
      \<or> 30 < now world0 + or_0 (cache_lifespan (layer0 15))"
    by (simp add: or_0_def layer0_def world0_def)
  from save_then_read [OF 1 2 3] show ?thesis by simp
qed

text \<open>
  C9. After \<open>remove\<close>, a \<open>read\<close> of the same tile gives the absence marker as a
  normal result, whether or not the tile was stored before.
\<close>

theorem remove_then_read:
  assumes "\<not> raises w"
    and "\<not> raises (snd (remove str self l c auth format w))"
  shows "fst (remove str self l c auth format w) = Inr ()
    \<and> fst (read str self l c auth format ((snd (remove str self l c auth format w))\<lparr>now := t\<rparr>))
        = Inr None"
  using assms
  by (auto simp: remove_def read_def mem_delete_def mem_get_def Let_def raises_def lookup_def)

theorem remove_then_read_witness:
  "lookup ''p/0/a/1/2/3.png'' stored = Some ''body''
   \<and> fst (read str_int cache0 (layer0 15) coord0 [] ''png''
     ((snd (remove str_int cache0 (layer0 15) coord0 [] ''png'' stored))\<lparr>now := 30\<rparr>))
   = Inr None"
proof -
  have 1: "\<not> raises stored" by (simp add: raises_def stored_def world0_def)
  have 2: "\<not> raises (snd (remove str_int cache0 (layer0 15) coord0 [] ''png'' stored))"
    by (simp add: remove_def mem_delete_def Let_def raises_def stored_def world0_def)
  have 3: "lookup ''p/0/a/1/2/3.png'' stored = Some ''body''"
    by (simp add: lookup_def stored_def world0_def)
  from remove_then_read [OF 1 2] 3 show ?thesis by simp
qed

section \<open>The polling loop\<close>

text \<open>
  The four ways one round of the loop can go, and the induction that follows the only
  one that goes round again.
\<close>

lemma lock_poll_due: "\<not> now w < due \<Longrightarrow> lock_poll k ttl due w = (Inr False, w)"
  by (simp add: lock_poll.simps [of k ttl due w])

lemma lock_poll_raised:
  "now w < due \<Longrightarrow> raises w \<Longrightarrow>
   lock_poll k ttl due w = (Inl StoreError, answered (Add k ''locked.'' ttl) Raises w)"
  by (simp add: lock_poll.simps [of k ttl due w] mem_add_def)

lemma lock_poll_created:
  "now w < due \<Longrightarrow> \<not> raises w \<Longrightarrow> lookup k w = None \<Longrightarrow>
   lock_poll k ttl due w = (Inr True,
     answered (Add k ''locked.'' ttl) Stored
       (w\<lparr>store := (store w)(k \<mapsto> (''locked.'', expiry ttl w))\<rparr>))"
  by (simp add: lock_poll.simps [of k ttl due w] mem_add_def)

lemma lock_poll_waits:
  "now w < due \<Longrightarrow> \<not> raises w \<Longrightarrow> lookup k w \<noteq> None \<Longrightarrow>
   lock_poll k ttl due w
     = lock_poll k ttl due (sleep (1 / 5) (answered (Add k ''locked.'' ttl) NotStored w))"
proof -
  assume a: "now w < due" "\<not> raises w" "lookup k w \<noteq> None"
  then have "mem_add k ''locked.'' ttl w
      = (Inr False, answered (Add k ''locked.'' ttl) NotStored w)"
    by (simp add: mem_add_def)
  with a(1) show ?thesis by (simp add: lock_poll.simps [of k ttl due w])
qed

lemma lock_poll_induct [case_names poll]:
  assumes step: "\<And>w. (now w < due \<Longrightarrow> \<not> raises w \<Longrightarrow> lookup k w \<noteq> None \<Longrightarrow>
      P (sleep (1 / 5) (answered (Add k ''locked.'' ttl) NotStored w))) \<Longrightarrow> P w"
  shows "P w"
proof -
  have "k' = k \<Longrightarrow> ttl' = ttl \<Longrightarrow> due' = due \<Longrightarrow> P w" for k' ttl' due'
  proof (induction k' ttl' due' w rule: lock_poll.induct)
    case (1 k' ttl' due' w)
    show ?case
    proof (rule step)
      assume a: "now w < due" "\<not> raises w" "lookup k w \<noteq> None"
      then have m: "(Inr False, answered (Add k ''locked.'' ttl) NotStored w)
          = mem_add k' ''locked.'' ttl' w"
        using "1.prems" by (simp add: mem_add_def)
      from a(1) "1.prems" have lt: "now w < due'" by simp
      from "1.IH" [OF lt m refl refl "1.prems"]
      show "P (sleep (1 / 5) (answered (Add k ''locked.'' ttl) NotStored w))" .
    qed
  qed
  then show ?thesis by simp
qed

lemma lock_poll_now:
  "if now w < due then now (snd (lock_poll k ttl due w)) < due + 1 / 5
   else now (snd (lock_poll k ttl due w)) = now w"
proof (induction w rule: lock_poll_induct [where k = k and ttl = ttl and due = due])
  case (poll w)
  show ?case
  proof (cases "now w < due")
    case False
    then show ?thesis by (simp add: lock_poll_due)
  next
    case True
    consider (r) "raises w" | (c) "\<not> raises w" "lookup k w = None"
      | (h) "\<not> raises w" "lookup k w \<noteq> None" by blast
    then show ?thesis
    proof cases
      case r
      with True show ?thesis by (simp add: lock_poll_raised)
    next
      case c
      with True show ?thesis by (simp add: lock_poll_created)
    next
      case h
      let ?w = "sleep (1 / 5) (answered (Add k ''locked.'' ttl) NotStored w)"
      have n: "now ?w = now w + 1 / 5" by simp
      from poll [OF True h] n
      have "now (snd (lock_poll k ttl due ?w)) < due + 1 / 5"
        using True by (simp split: if_splits)
      with True h show ?thesis by (simp add: lock_poll_waits)
    qed
  qed
qed

lemma lock_poll_sessions: "sessions (snd (lock_poll k ttl due w)) = sessions w"
proof (induction w rule: lock_poll_induct [where k = k and ttl = ttl and due = due])
  case (poll w)
  show ?case
  proof (cases "now w < due")
    case False
    then show ?thesis by (simp add: lock_poll_due)
  next
    case True
    consider (r) "raises w" | (c) "\<not> raises w" "lookup k w = None"
      | (h) "\<not> raises w" "lookup k w \<noteq> None" by blast
    then show ?thesis
    proof cases
      case r
      with True show ?thesis by (simp add: lock_poll_raised)
    next
      case c
      with True show ?thesis by (simp add: lock_poll_created)
    next
      case h
      from poll [OF True h] True h show ?thesis by (simp add: lock_poll_waits)
    qed
  qed
qed

lemma no_fault_raises: "True \<notin> set (faults w) \<Longrightarrow> \<not> raises w"
  by (cases "faults w") (simp_all add: raises_def)

lemma no_fault_tl: "True \<notin> set (faults w) \<Longrightarrow> True \<notin> set (tl (faults w))"
  by (cases "faults w") simp_all

lemma lock_poll_no_fault:
  "True \<notin> set (faults w) \<Longrightarrow>
   \<not> isl (fst (lock_poll k ttl due w)) \<and> True \<notin> set (faults (snd (lock_poll k ttl due w)))"
proof (induction w rule: lock_poll_induct [where k = k and ttl = ttl and due = due])
  case (poll w)
  from poll.prems have nr: "\<not> raises w" by (rule no_fault_raises)
  show ?case
  proof (cases "now w < due")
    case False
    with poll.prems show ?thesis by (simp add: lock_poll_due)
  next
    case True
    show ?thesis
    proof (cases "lookup k w = None")
      case c: True
      with True nr poll.prems show ?thesis by (simp add: lock_poll_created no_fault_tl)
    next
      case h: False
      have "True \<notin> set (faults (sleep (1 / 5) (answered (Add k ''locked.'' ttl) NotStored w)))"
        using poll.prems by (simp add: no_fault_tl)
      from poll.IH [OF True nr h this] True nr h show ?thesis by (simp add: lock_poll_waits)
    qed
  qed
qed

lemma is_add_not_set: "is_add e \<Longrightarrow> \<not> is_set e"
  by (cases e rule: is_add.cases) simp_all

lemma lock_poll_calls:
  "\<exists>xs. calls (snd (lock_poll k ttl due w)) = calls w @ xs
     \<and> (\<forall>e \<in> set xs. is_add e \<and> fst e < due)
     \<and> (fst (lock_poll k ttl due w) = Inr True \<longrightarrow>
          xs \<noteq> [] \<and> created (last xs) \<and> fst (last xs) = now (snd (lock_poll k ttl due w)))
     \<and> (fst (lock_poll k ttl due w) \<noteq> Inr True \<longrightarrow> (\<forall>e \<in> set xs. \<not> created e))
     \<and> (fst (lock_poll k ttl due w) = Inr False \<longrightarrow> due \<le> now (snd (lock_poll k ttl due w)))"
  (is "?P w")
proof (induction w rule: lock_poll_induct [where k = k and ttl = ttl and due = due])
  case (poll w)
  show ?case
  proof (cases "now w < due")
    case False
    then show ?thesis by (simp add: lock_poll_due)
  next
    case True
    consider (r) "raises w" | (c) "\<not> raises w" "lookup k w = None"
      | (h) "\<not> raises w" "lookup k w \<noteq> None" by blast
    then show ?thesis
    proof cases
      case r
      with True show ?thesis by (simp add: lock_poll_raised)
    next
      case c
      with True show ?thesis by (simp add: lock_poll_created)
    next
      case h
      let ?w = "sleep (1 / 5) (answered (Add k ''locked.'' ttl) NotStored w)"
      let ?e = "(now w, Add k ''locked.'' ttl, NotStored)"
      have eq: "lock_poll k ttl due w = lock_poll k ttl due ?w"
        using True h by (rule lock_poll_waits)
      from poll [OF True h] obtain xs where
        xs: "calls (snd (lock_poll k ttl due ?w)) = calls ?w @ xs"
        and adds: "\<forall>e \<in> set xs. is_add e \<and> fst e < due"
        and won: "fst (lock_poll k ttl due ?w) = Inr True \<longrightarrow>
          xs \<noteq> [] \<and> created (last xs) \<and> fst (last xs) = now (snd (lock_poll k ttl due ?w))"
        and lost: "fst (lock_poll k ttl due ?w) \<noteq> Inr True \<longrightarrow> (\<forall>e \<in> set xs. \<not> created e)"
        and late: "fst (lock_poll k ttl due ?w) = Inr False \<longrightarrow>
          due \<le> now (snd (lock_poll k ttl due ?w))"
        by blast
      have "calls (snd (lock_poll k ttl due w)) = calls w @ (?e # xs)"
        using xs by (simp add: eq)
      moreover have "\<forall>e \<in> set (?e # xs). is_add e \<and> fst e < due"
        using adds True by simp
      moreover have "fst (lock_poll k ttl due w) = Inr True \<longrightarrow>
          ?e # xs \<noteq> [] \<and> created (last (?e # xs))
          \<and> fst (last (?e # xs)) = now (snd (lock_poll k ttl due w))"
        using won by (simp add: eq)
      moreover have "fst (lock_poll k ttl due w) \<noteq> Inr True \<longrightarrow>
          (\<forall>e \<in> set (?e # xs). \<not> created e)"
        using lost by (simp add: eq)
      moreover have "fst (lock_poll k ttl due w) = Inr False \<longrightarrow>
          due \<le> now (snd (lock_poll k ttl due w))"
        using late by (simp add: eq)
      ultimately show ?thesis by blast
    qed
  qed
qed

lemma lock_unfold:
  "lock str self l c auth format w =
     (let k = tile_key str l c auth format (revision self) (key_prefix self) @ ''-lock'';
          p = lock_poll k (stale_lock_timeout l) (now w + stale_lock_timeout l)
                (Client (servers self) w)
      in case fst p of
           Inl e \<Rightarrow> (Inl e, disconnect_all (snd p))
         | Inr b \<Rightarrow>
             if b then (Inr (), disconnect_all (snd p))
             else (fst (mem_set k ''locked.'' (stale_lock_timeout l) (snd p)),
                   disconnect_all (snd (mem_set k ''locked.'' (stale_lock_timeout l) (snd p)))))"
  by (simp add: lock_def Let_def split: prod.splits sum.splits bool.splits)

lemma lock_releases: "sessions (snd (lock str self l c auth format w)) = sessions w"
  using lock_poll_sessions [of "tile_key str l c auth format (revision self) (key_prefix self) @ ''-lock''"
      "stale_lock_timeout l" "now w + stale_lock_timeout l" "Client (servers self) w"]
  by (simp add: lock_unfold Let_def split: sum.splits)

lemma lock_held_calls:
  "new_calls held (snd (lock str_int cache0 (layer0 (3 / 10)) coord0 [] ''png'' held))
     = [(0, Add ''p/0/a/1/2/3.png-lock'' ''locked.'' (3 / 10), NotStored),
        (1 / 5, Add ''p/0/a/1/2/3.png-lock'' ''locked.'' (3 / 10), NotStored),
        (2 / 5, Set ''p/0/a/1/2/3.png-lock'' ''locked.'' (3 / 10), Stored)]"
  by (simp add: lock_unfold key0 Let_def new_calls_def)
    (simp add: layer0_def held_def world0_def cache0_def lock_poll_waits lock_poll_due
      raises_def lookup_def sleep_def answered_def Client_def)

lemma lock_released_calls:
  "new_calls released (snd (lock str_int cache0 (layer0 1) coord0 [] ''png'' released))
     = [(0, Add ''p/0/a/1/2/3.png-lock'' ''locked.'' 1, NotStored),
        (1 / 5, Add ''p/0/a/1/2/3.png-lock'' ''locked.'' 1, Stored)]"
  by (simp add: lock_unfold key0 Let_def new_calls_def)
    (simp add: layer0_def released_def held_def world0_def cache0_def lock_poll_waits
      lock_poll_created lock_poll_due raises_def lookup_def sleep_def answered_def Client_def)

section \<open>Sessions\<close>

text \<open>
  What each operation leaves of the session it opened: \<open>lock\<close> always closes it (see
  \<open>lock_releases\<close>); the other four close it when the store call returns and leave it
  open when the call raises.
\<close>

lemma read_sessions:
  "sessions (snd (read str self l c auth format w))
     = (if raises w then servers self # sessions w else sessions w)"
  by (simp add: read_def mem_get_def Let_def)

lemma unlock_sessions:
  "sessions (snd (unlock str self l c auth format w))
     = (if raises w then servers self # sessions w else sessions w)"
  by (simp add: unlock_def mem_delete_def Let_def)

lemma remove_sessions:
  "sessions (snd (remove str self l c auth format w))
     = (if raises w then servers self # sessions w else sessions w)"
  by (simp add: remove_def mem_delete_def Let_def)

lemma save_sessions:
  "sessions (snd (save str self body l c auth format w))
     = (if raises w then servers self # sessions w else sessions w)"
  by (simp add: save_def mem_set_def Let_def)

text \<open>
  C4. Every operation should close the session it opened on every way out. With a store
  call that raises, \<open>lock\<close> does: the error comes out and no session is left. \<open>read\<close>,
  \<open>unlock\<close>, \<open>remove\<close> and \<open>save\<close> do not: the error comes out and the session
  they opened is still open.
\<close>

theorem session_leak_on_failure:
  "sessions failing = []
   \<and> fst (read str_int cache0 (layer0 15) coord0 [] ''png'' failing) = Inl StoreError
   \<and> sessions (snd (read str_int cache0 (layer0 15) coord0 [] ''png'' failing)) = [servers cache0]
   \<and> fst (unlock str_int cache0 (layer0 15) coord0 [] ''png'' failing) = Inl StoreError
   \<and> sessions (snd (unlock str_int cache0 (layer0 15) coord0 [] ''png'' failing)) = [servers cache0]
   \<and> fst (remove str_int cache0 (layer0 15) coord0 [] ''png'' failing) = Inl StoreError
   \<and> sessions (snd (remove str_int cache0 (layer0 15) coord0 [] ''png'' failing)) = [servers cache0]
   \<and> fst (save str_int cache0 ''body'' (layer0 15) coord0 [] ''png'' failing) = Inl StoreError
   \<and> sessions (snd (save str_int cache0 ''body'' (layer0 15) coord0 [] ''png'' failing))
       = [servers cache0]
   \<and> fst (lock str_int cache0 (layer0 15) coord0 [] ''png'' failing) = Inl StoreError
   \<and> sessions (snd (lock str_int cache0 (layer0 15) coord0 [] ''png'' failing)) = []"
proof -
  have f: "raises (Client (servers cache0) failing)" "sessions failing = []"
    by (simp_all add: raises_def failing_def world0_def)
  have "now (Client (servers cache0) failing) < now failing + stale_lock_timeout (layer0 15)"
    by (simp add: layer0_def)
  with f(1) have "fst (lock str_int cache0 (layer0 15) coord0 [] ''png'' failing) = Inl StoreError"
    by (simp add: lock_unfold Let_def lock_poll_raised)
  with f show ?thesis
    by (simp add: read_def unlock_def remove_def save_def mem_get_def mem_delete_def mem_set_def
        Let_def lock_releases)
qed

section \<open>Waiting for the lock\<close>

text \<open>
  C5. A caller that finds the lock held at time 0 and waits with a timeout of 0.3
  seconds polls at 0 and at 0.2, sleeps again, and returns by stealing the lock at 0.4,
  after the timeout.
\<close>

theorem lock_overshoots:
  "\<not> now (snd (lock str_int cache0 (layer0 (3 / 10)) coord0 [] ''png'' held))
     \<le> now held + stale_lock_timeout (layer0 (3 / 10))"
proof -
  have "now (snd (lock str_int cache0 (layer0 (3 / 10)) coord0 [] ''png'' held)) = 2 / 5"
    by (simp add: lock_unfold key0 Let_def lock_poll_waits lock_poll_due)
      (simp add: layer0_def held_def world0_def cache0_def lock_poll_waits lock_poll_due
        raises_def lookup_def sleep_def answered_def Client_def)
  then show ?thesis by (simp add: held_def world0_def layer0_def)
qed

text \<open>
  C5, amended. \<open>lock\<close> always ends. With a positive timeout, store calls that take no
  time and sleeps of exactly the polling interval, it ends less than one polling
  interval (0.2 seconds) after the timeout, whatever the other callers do and whether or
  not the holder unlocks; when no store call raises it ends by returning.
\<close>

theorem lock_bounded_wait:
  assumes "0 < stale_lock_timeout l"
  shows "now (snd (lock str self l c auth format w)) < now w + stale_lock_timeout l + 1 / 5
    \<and> (True \<notin> set (faults w) \<longrightarrow> fst (lock str self l c auth format w) = Inr ())"
proof -
  let ?k = "tile_key str l c auth format (revision self) (key_prefix self) @ ''-lock''"
  let ?p = "lock_poll ?k (stale_lock_timeout l) (now w + stale_lock_timeout l)
      (Client (servers self) w)"
  have "now (Client (servers self) w) < now w + stale_lock_timeout l" using assms by simp
  with lock_poll_now [of "Client (servers self) w" "now w + stale_lock_timeout l" ?k
      "stale_lock_timeout l"]
  have t: "now (snd ?p) < now w + stale_lock_timeout l + 1 / 5" by simp
  then have 1: "now (snd (lock str self l c auth format w)) < now w + stale_lock_timeout l + 1 / 5"
    by (simp add: lock_unfold Let_def split: sum.splits)
  have 2: "fst (lock str self l c auth format w) = Inr ()" if "True \<notin> set (faults w)"
  proof -
    from that have "True \<notin> set (faults (Client (servers self) w))" by simp
    from lock_poll_no_fault [OF this, of ?k "stale_lock_timeout l" "now w + stale_lock_timeout l"]
    have "\<not> isl (fst ?p)" and "\<not> raises (snd ?p)" by (simp_all add: no_fault_raises)
    then show ?thesis by (auto simp: lock_unfold Let_def split: sum.splits)
  qed
  from 1 2 show ?thesis by blast
qed

theorem lock_bounded_wait_witness:
  "now (snd (lock str_int cache0 (layer0 (3 / 10)) coord0 [] ''png'' held)) < 1 / 2
   \<and> fst (lock str_int cache0 (layer0 (3 / 10)) coord0 [] ''png'' held) = Inr ()"
  using lock_bounded_wait [of "layer0 (3 / 10)" str_int cache0 coord0 "[]" "''png''" held]
  by (simp add: layer0_def held_def world0_def)

text \<open>
  C6. In every run of \<open>lock\<close>, the unconditional set is called only at a time at which
  the timeout has passed since the call began; and when an atomic create succeeds, that
  call is the last store call of the run, \<open>lock\<close> returns at once and no unconditional
  set is made.
\<close>

theorem steal_only_after_deadline:
  "(\<forall>e \<in> set (new_calls w (snd (lock str self l c auth format w))).
      is_set e \<longrightarrow> now w + stale_lock_timeout l \<le> fst e)
   \<and> ((\<exists>e \<in> set (new_calls w (snd (lock str self l c auth format w))). created e) \<longrightarrow>
        fst (lock str self l c auth format w) = Inr ()
        \<and> (\<forall>e \<in> set (new_calls w (snd (lock str self l c auth format w))). \<not> is_set e)
        \<and> created (last (new_calls w (snd (lock str self l c auth format w))))
        \<and> now (snd (lock str self l c auth format w))
            = fst (last (new_calls w (snd (lock str self l c auth format w)))))"
proof -
  let ?k = "tile_key str l c auth format (revision self) (key_prefix self) @ ''-lock''"
  let ?due = "now w + stale_lock_timeout l"
  let ?p = "lock_poll ?k (stale_lock_timeout l) ?due (Client (servers self) w)"
  from lock_poll_calls [of ?k "stale_lock_timeout l" ?due "Client (servers self) w"]
  obtain xs where xs: "calls (snd ?p) = calls w @ xs"
    and adds: "\<forall>e \<in> set xs. is_add e \<and> fst e < ?due"
    and won: "fst ?p = Inr True \<longrightarrow> xs \<noteq> [] \<and> created (last xs) \<and> fst (last xs) = now (snd ?p)"
    and lost: "fst ?p \<noteq> Inr True \<longrightarrow> (\<forall>e \<in> set xs. \<not> created e)"
    and late: "fst ?p = Inr False \<longrightarrow> ?due \<le> now (snd ?p)"
    by auto
  from adds have nosets: "\<forall>e \<in> set xs. \<not> is_set e" by (blast dest: is_add_not_set)
  show ?thesis
  proof (cases "fst ?p")
    case (Inl e)
    then have "new_calls w (snd (lock str self l c auth format w)) = xs"
      by (simp add: lock_unfold Let_def new_calls_def xs)
    with Inl nosets lost show ?thesis by simp
  next
    case (Inr b)
    show ?thesis
    proof (cases b)
      case True
      with Inr have "new_calls w (snd (lock str self l c auth format w)) = xs"
        and "fst (lock str self l c auth format w) = Inr ()"
        and "now (snd (lock str self l c auth format w)) = now (snd ?p)"
        by (simp_all add: lock_unfold Let_def new_calls_def xs)
      with True Inr nosets won show ?thesis by simp
    next
      case False
      let ?e = "(now (snd ?p), Set ?k ''locked.'' (stale_lock_timeout l),
        if raises (snd ?p) then Raises else Stored)"
      from False Inr have "new_calls w (snd (lock str self l c auth format w)) = xs @ [?e]"
        by (simp add: lock_unfold Let_def new_calls_def xs)
      moreover have "?due \<le> fst ?e" using late False Inr by simp
      moreover have "\<not> created ?e" by simp
      moreover have "\<forall>e \<in> set xs. \<not> created e" using lost False Inr by simp
      ultimately show ?thesis using nosets by auto
    qed
  qed
qed

theorem steal_only_after_deadline_witness:
  "created (last (new_calls released (snd (lock str_int cache0 (layer0 1) coord0 [] ''png'' released))))
   \<and> fst (lock str_int cache0 (layer0 1) coord0 [] ''png'' released) = Inr ()
   \<and> now (snd (lock str_int cache0 (layer0 1) coord0 [] ''png'' released)) = 1 / 5
   \<and> (2 / 5, Set ''p/0/a/1/2/3.png-lock'' ''locked.'' (3 / 10), Stored)
       \<in> set (new_calls held (snd (lock str_int cache0 (layer0 (3 / 10)) coord0 [] ''png'' held)))
   \<and> now held + stale_lock_timeout (layer0 (3 / 10)) \<le> 2 / 5"
proof -
  let ?steal = "(2 / 5, Set ''p/0/a/1/2/3.png-lock'' ''locked.'' (3 / 10), Stored)"
  have "\<exists>e \<in> set (new_calls released
      (snd (lock str_int cache0 (layer0 1) coord0 [] ''png'' released))). created e"
    by (simp add: lock_released_calls)
  with steal_only_after_deadline [of released str_int cache0 "layer0 1" coord0 "[]" "''png''"]
  have a: "fst (lock str_int cache0 (layer0 1) coord0 [] ''png'' released) = Inr ()"
    and b: "created (last (new_calls released
      (snd (lock str_int cache0 (layer0 1) coord0 [] ''png'' released))))"
    and c: "now (snd (lock str_int cache0 (layer0 1) coord0 [] ''png'' released))
      = fst (last (new_calls released
          (snd (lock str_int cache0 (layer0 1) coord0 [] ''png'' released))))"
    by blast+
  have d: "?steal \<in> set (new_calls held
      (snd (lock str_int cache0 (layer0 (3 / 10)) coord0 [] ''png'' held)))"
    by (simp add: lock_held_calls)
  moreover have "is_set ?steal" by simp
  ultimately have "now held + stale_lock_timeout (layer0 (3 / 10)) \<le> fst ?steal"
    using steal_only_after_deadline [of held str_int cache0 "layer0 (3 / 10)" coord0 "[]" "''png''"]
    by blast
  with a b c d show ?thesis by (simp add: lock_released_calls)
qed

text \<open>
  C10. With a timeout that is zero or negative, \<open>lock\<close> makes one store call, the
  unconditional set of the lock entry at the time of the call: it never tries the atomic
  create, whatever the store holds.
\<close>

theorem lock_skips_polling:
  assumes "stale_lock_timeout l \<le> 0"
  shows "new_calls w (snd (lock str self l c auth format w))
      = [(now w,
          Set (tile_key str l c auth format (revision self) (key_prefix self) @ ''-lock'')
            ''locked.'' (stale_lock_timeout l),
          if raises w then Raises else Stored)]
    \<and> now (snd (lock str self l c auth format w)) = now w
    \<and> fst (lock str self l c auth format w) = (if raises w then Inl StoreError else Inr ())"
proof -
  have "\<not> now (Client (servers self) w) < now w + stale_lock_timeout l" using assms by simp
  then show ?thesis by (simp add: lock_unfold Let_def lock_poll_due new_calls_def)
qed

theorem lock_skips_polling_witness:
  "new_calls world0 (snd (lock str_int cache0 (layer0 0) coord0 [] ''png'' world0))
     = [(0, Set ''p/0/a/1/2/3.png-lock'' ''locked.'' 0, Stored)]
   \<and> fst (lock str_int cache0 (layer0 0) coord0 [] ''png'' world0) = Inr ()"
  using lock_skips_polling [of "layer0 0" world0 str_int cache0 coord0 "[]" "''png''"]
  by (simp add: key0) (simp add: layer0_def world0_def raises_def)

end
